theory Spec2Isabelle
  imports Complex_Main "HOL-Library.Word" "HOL-Library.Sublist"
begin

unbundle bit_operations_syntax

section \<open>Data model\<close>

text \<open>
  The component \<^verbatim>\<open>StaticPinDrop.vue\<close> holds the geometric core of the repository:
  \<^verbatim>\<open>simplifyPath\<close> (vertex reduction followed by Douglas-Peucker) and
  \<^verbatim>\<open>encodePolyline\<close> (Google's polyline encoding).

  A point is the two-element array \<^verbatim>\<open>[lat, lng]\<close>; \<^verbatim>\<open>p[0]\<close> is \<open>fst p\<close> and
  \<^verbatim>\<open>p[1]\<close> is \<open>snd p\<close>. Coordinates, distances and tolerances are JavaScript
  numbers, that is binary64 floating-point numbers; they are modelled by exact
  reals. The model and the program agree wherever the binary64 operations are
  exact (integers and dyadic fractions of moderate size, as in every concrete
  evaluation below); elsewhere the program rounds each product, sum and quotient,
  and very small or very large values underflow or overflow, which the model does
  not. The theorems below are therefore either about the structure of the result
  (which points, which characters, in which order), which does not depend on the
  values the comparisons see, or are stated within bounds and with margins that
  cover the rounding of the program. The integers the encoder works on
  (rounded coordinates and their differences) are \<open>int\<close>; the operators
  \<^verbatim>\<open><<\<close>, \<^verbatim>\<open>~\<close>, \<^verbatim>\<open>&\<close>, \<^verbatim>\<open>|\<close> and \<^verbatim>\<open>>>\<close> work on 32-bit two's complement
  integers and are modelled on \<open>32 word\<close>, read back with \<open>sint\<close>.
  A JavaScript string is the list of its UTF-16 code units.
\<close>

type_synonym point = "real \<times> real"

type_synonym jsstring = "nat list"

text \<open>
  What can go wrong at run time: reading a coordinate of \<^verbatim>\<open>undefined\<close> (an array
  read out of range) throws a \<^verbatim>\<open>TypeError\<close>; a division by zero yields a
  non-finite number, which the reals do not have, so it is an error of the model.
  Over the reals the guard of \<^verbatim>\<open>getSqSegDist\<close> excludes it; in binary64 the divisor
  \<^verbatim>\<open>dx * dx + dy * dy\<close> can also underflow to zero for end points that differ by
  less than about \<open>1e-162\<close>, a case the model does not have.
\<close>

datatype error = TypeError | DivisionByZero

section \<open>The encoder\<close>

text \<open>\<^verbatim>\<open>Math.round\<close>: the nearest integer, a tie going towards plus infinity.\<close>

definition jsRound :: "real \<Rightarrow> int" where
  "jsRound x = \<lfloor>x + 1 / 2\<rfloor>"

text \<open>\<^verbatim>\<open>String.fromCharCode\<close> of one number: the code unit is the number modulo \<open>2^16\<close>.\<close>

definition fromCharCode :: "int \<Rightarrow> nat" where
  "fromCharCode n = nat (n mod 65536)"

text \<open>
  The \<^verbatim>\<open>while\<close> loop of \<^verbatim>\<open>encodeNumber\<close>, on the state \<open>(num, result)\<close>.
  \<^verbatim>\<open>num >>= 5\<close> is the sign-propagating shift.
\<close>

function encodeNumber_loop :: "32 word \<Rightarrow> jsstring \<Rightarrow> 32 word \<times> jsstring" where
  "encodeNumber_loop num result =
     (if 0x20 \<le> sint num
      then encodeNumber_loop (signed_drop_bit 5 num)
             (result @ [fromCharCode (sint (0x20 OR (num AND 0x1f)) + 63)])
      else (num, result))"
  by pat_completeness auto
termination
proof (relation "measure (\<lambda>(num, result). nat (sint num))")
  show "wf (measure (\<lambda>(num :: 32 word, result :: jsstring). nat (sint num)))"
    by simp
next
  fix num :: "32 word" and result :: jsstring
  assume "0x20 \<le> sint num"
  then have "sint num div 2 ^ 5 < sint num"
    by simp
  then show "((signed_drop_bit 5 num,
                result @ [fromCharCode (sint (0x20 OR (num AND 0x1f)) + 63)]),
              (num, result)) \<in> measure (\<lambda>(num, result). nat (sint num))"
    using \<open>0x20 \<le> sint num\<close> by (simp add: sint_signed_drop_bit_eq drop_bit_eq_div)
qed

definition encodeNumber :: "32 word \<Rightarrow> jsstring" where
  "encodeNumber num =
     (case encodeNumber_loop num [] of
        (num', result) \<Rightarrow> result @ [fromCharCode (sint num' + 63)])"

text \<open>
  Lines 142 to 145 of \<^verbatim>\<open>encodeSignedNumber\<close>: \<^verbatim>\<open>num << 1\<close> takes the number modulo
  \<open>2^32\<close> and shifts it; the result is inverted when \<open>num\<close> is negative.
\<close>

definition signedTransform :: "int \<Rightarrow> 32 word" where
  "signedTransform num =
     (let sgnNum = push_bit 1 (word_of_int num :: 32 word)
      in if num < 0 then NOT sgnNum else sgnNum)"

definition encodeSignedNumber :: "int \<Rightarrow> jsstring" where
  "encodeSignedNumber num = encodeNumber (signedTransform num)"

text \<open>
  The \<^verbatim>\<open>for\<close> loop of \<^verbatim>\<open>encodePolyline\<close>, on the state
  \<open>(i, result, prevLat, prevLng)\<close>. The loop condition keeps every read in range.
\<close>

function encodePolyline_loop ::
  "point list \<Rightarrow> nat \<Rightarrow> jsstring \<Rightarrow> int \<Rightarrow> int \<Rightarrow> jsstring" where
  "encodePolyline_loop points i result prevLat prevLng =
     (if i < length points
      then let lat = jsRound (fst (points ! i) * 100000);
               lng = jsRound (snd (points ! i) * 100000);
               dLat = lat - prevLat;
               dLng = lng - prevLng
           in encodePolyline_loop points (i + 1)
                (result @ encodeSignedNumber dLat @ encodeSignedNumber dLng) lat lng
      else result)"
  by pat_completeness auto
termination
  by (relation "measure (\<lambda>(points, i, result, prevLat, prevLng). length points - i)") auto

definition encodePolyline :: "point list \<Rightarrow> jsstring" where
  "encodePolyline points = encodePolyline_loop points 0 [] 0 0"

text \<open>
  Modelled from the spec: the decoding of the signed pattern. The repository has no
  decoder; the specification names the reciprocal decoding algorithm of the
  polyline format, \<^verbatim>\<open>(n & 1) ? ~(n >> 1) : (n >> 1)\<close> on 32-bit integers: the
  pattern shifted right by one bit, inverted when its lowest bit is set.
\<close>

definition zigzagDecode :: "32 word \<Rightarrow> int" where
  "zigzagDecode w =
     sint (if bit w 0 then NOT (signed_drop_bit 1 w) else signed_drop_bit 1 w)"

section \<open>The simplifier\<close>

definition getSqDist :: "point \<Rightarrow> point \<Rightarrow> real" where
  "getSqDist p1 p2 =
     (let dx = fst p1 - fst p2;
          dy = snd p1 - snd p2
      in dx * dx + dy * dy)"

text \<open>The division of \<^verbatim>\<open>getSqSegDist\<close>, with the zero divisor as a branch.\<close>

definition jsDivide :: "real \<Rightarrow> real \<Rightarrow> error + real" where
  "jsDivide a b = (if b = 0 then Inl DivisionByZero else Inr (a / b))"

definition getSqSegDist :: "point \<Rightarrow> point \<Rightarrow> point \<Rightarrow> error + real" where
  "getSqSegDist p p1 p2 =
     (let x = fst p1;
          y = snd p1;
          dx = fst p2 - x;
          dy = snd p2 - y
      in case (if dx \<noteq> 0 \<or> dy \<noteq> 0
               then case jsDivide ((fst p - x) * dx + (snd p - y) * dy) (dx * dx + dy * dy) of
                      Inl e \<Rightarrow> Inl e
                    | Inr t \<Rightarrow>
                        if t > 1 then Inr (fst p2, snd p2)
                        else if t > 0 then Inr (x + dx * t, y + dy * t)
                        else Inr (x, y)
               else Inr (x, y)) of
           Inl e \<Rightarrow> Inl e
         | Inr (x', y') \<Rightarrow>
             let dx' = fst p - x';
                 dy' = snd p - y'
             in Inr (dx' * dx' + dy' * dy'))"

text \<open>
  An array read whose value is then indexed: out of range the read gives
  \<^verbatim>\<open>undefined\<close> and the indexing throws.
\<close>

definition elemAt :: "point list \<Rightarrow> nat \<Rightarrow> error + point" where
  "elemAt points i = (if i < length points then Inr (points ! i) else Inl TypeError)"

text \<open>
  The call \<^verbatim>\<open>getSqSegDist(points[i], points[first], points[last])\<close> of
  \<^verbatim>\<open>simplifyDPStep\<close>; the source's \<^verbatim>\<open>last\<close> is written \<open>lst\<close>, since \<open>last\<close>
  is the list function of HOL.
\<close>

definition sqSegDistAt :: "point list \<Rightarrow> nat \<Rightarrow> nat \<Rightarrow> nat \<Rightarrow> error + real" where
  "sqSegDistAt points i first lst =
     (case elemAt points first of
        Inl e \<Rightarrow> Inl e
      | Inr p1 \<Rightarrow>
          (case elemAt points lst of
             Inl e \<Rightarrow> Inl e
           | Inr p2 \<Rightarrow>
               (case elemAt points i of
                  Inl e \<Rightarrow> Inl e
                | Inr p \<Rightarrow> getSqSegDist p p1 p2)))"

text \<open>
  The \<^verbatim>\<open>for\<close> loop of \<^verbatim>\<open>simplifyDPStep\<close>, on the state \<open>(i, maxSqDist, index)\<close>;
  \<^verbatim>\<open>null\<close> is \<open>None\<close>.
\<close>

function simplifyDPStep_loop ::
  "point list \<Rightarrow> nat \<Rightarrow> nat \<Rightarrow> nat \<Rightarrow> real \<Rightarrow> nat option \<Rightarrow> error + (real \<times> nat option)" where
  "simplifyDPStep_loop points first lst i maxSqDist index =
     (if i < lst
      then case sqSegDistAt points i first lst of
             Inl e \<Rightarrow> Inl e
           | Inr sqDist \<Rightarrow>
               if sqDist > maxSqDist
               then simplifyDPStep_loop points first lst (i + 1) sqDist (Some i)
               else simplifyDPStep_loop points first lst (i + 1) maxSqDist index
      else Inr (maxSqDist, index))"
  by pat_completeness auto
termination
  by (relation "measure (\<lambda>(points, first, lst, i, maxSqDist, index). lst - i)") auto

declare encodeNumber_loop.simps [simp del]
declare encodePolyline_loop.simps [simp del]
declare simplifyDPStep_loop.simps [simp del]

text \<open>
  An index the loop returns is the one it started with or one it visited; the
  recursion of \<^verbatim>\<open>simplifyDPStep\<close> terminates because of it.
\<close>

lemma simplifyDPStep_loop_index:
  "simplifyDPStep_loop points first lst i maxSqDist index = Inr (m, Some k) \<Longrightarrow>
   index = Some k \<or> (i \<le> k \<and> k < lst)"
proof (induction points first lst i maxSqDist index rule: simplifyDPStep_loop.induct)
  case (1 points first lst i maxSqDist index)
  show ?case
  proof (cases "i < lst")
    case False
    with "1.prems" show ?thesis
      by (simp add: simplifyDPStep_loop.simps [of points first lst i])
  next
    case True
    then obtain sqDist where d: "sqSegDistAt points i first lst = Inr sqDist"
      using "1.prems"
      by (cases "sqSegDistAt points i first lst")
        (simp_all add: simplifyDPStep_loop.simps [of points first lst i])
    show ?thesis
    proof (cases "sqDist > maxSqDist")
      case g: True
      with True d "1.prems"
      have "simplifyDPStep_loop points first lst (i + 1) sqDist (Some i) = Inr (m, Some k)"
        by (simp add: simplifyDPStep_loop.simps [of points first lst i])
      from "1.IH"(1) [OF True d g this] True show ?thesis by auto
    next
      case g: False
      with True d "1.prems"
      have "simplifyDPStep_loop points first lst (i + 1) maxSqDist index = Inr (m, Some k)"
        by (simp add: simplifyDPStep_loop.simps [of points first lst i])
      from "1.IH"(2) [OF True d g this] show ?thesis by auto
    qed
  qed
qed

lemma simplifyDPStep_loop_range:
  "simplifyDPStep_loop points first lst (Suc first) sqTolerance None = Inr (m, Some k) \<Longrightarrow>
   first < k \<and> k < lst"
  using simplifyDPStep_loop_index [of points first lst "Suc first" sqTolerance None m k]
  by auto

text \<open>
  \<^verbatim>\<open>simplifyDPStep\<close> pushes onto the array \<^verbatim>\<open>simplified\<close> it is given; the model
  takes the array and returns it extended. The point pushed was read by the loop,
  so that read is in range.
\<close>

function simplifyDPStep ::
  "point list \<Rightarrow> nat \<Rightarrow> nat \<Rightarrow> real \<Rightarrow> point list \<Rightarrow> error + point list" where
  "simplifyDPStep points first lst sqTolerance simplified =
     (case simplifyDPStep_loop points first lst (first + 1) sqTolerance None of
        Inl e \<Rightarrow> Inl e
      | Inr (maxSqDist, None) \<Rightarrow> Inr simplified
      | Inr (maxSqDist, Some index) \<Rightarrow>
          (case (if index - first > 1
                 then simplifyDPStep points first index sqTolerance simplified
                 else Inr simplified) of
             Inl e \<Rightarrow> Inl e
           | Inr simplified1 \<Rightarrow>
               let simplified2 = simplified1 @ [points ! index]
               in if lst - index > 1
                  then simplifyDPStep points index lst sqTolerance simplified2
                  else Inr simplified2))"
  by pat_completeness auto
termination
  by (relation "measure (\<lambda>(points, first, lst, sqTolerance, simplified). lst - first)")
    (auto dest!: simplifyDPStep_loop_range)

declare simplifyDPStep.simps [simp del]

text \<open>
  Stage 1 of \<^verbatim>\<open>simplifyPath\<close> (lines 180 to 186): the \<^verbatim>\<open>for\<close> loop on the state
  \<open>(i, reducedPoints)\<close>, then the push of the last point. As in the source, the
  point at \<open>i\<close> is compared with the point at \<open>i - 1\<close> of the input. It runs only on a path of
  more than two points, so \<open>i - 1\<close> and \<open>length points - 1\<close> are the source's
  differences and every read is in range.
\<close>

function vertexReduction_loop :: "point list \<Rightarrow> real \<Rightarrow> nat \<Rightarrow> point list \<Rightarrow> point list" where
  "vertexReduction_loop points sqTolerance i reducedPoints =
     (if i < length points - 1
      then if getSqDist (points ! i) (points ! (i - 1)) > sqTolerance
           then vertexReduction_loop points sqTolerance (i + 1) (reducedPoints @ [points ! i])
           else vertexReduction_loop points sqTolerance (i + 1) reducedPoints
      else reducedPoints)"
  by pat_completeness auto
termination
  by (relation "measure (\<lambda>(points, sqTolerance, i, reducedPoints). length points - i)") auto

declare vertexReduction_loop.simps [simp del]

definition vertexReduction :: "point list \<Rightarrow> real \<Rightarrow> point list" where
  "vertexReduction points sqTolerance =
     (let reducedPoints = vertexReduction_loop points sqTolerance 1 [points ! 0]
      in reducedPoints @ [points ! (length points - 1)])"

definition simplifyPath :: "point list \<Rightarrow> real \<Rightarrow> error + point list" where
  "simplifyPath points tolerance =
     (if length points \<le> 2 then Inr points
      else let sqTolerance = tolerance * tolerance;
               reducedPoints = vertexReduction points sqTolerance
           in case simplifyDPStep reducedPoints 0 (length reducedPoints - 1) sqTolerance
                     [reducedPoints ! 0] of
                Inl e \<Rightarrow> Inl e
              | Inr simplified \<Rightarrow>
                  Inr (simplified @ [reducedPoints ! (length reducedPoints - 1)]))"

text \<open>
  For the proofs: how the states \<open>(maxSqDist, index)\<close> of two runs of the loop of
  \<^verbatim>\<open>simplifyDPStep\<close> over the same range are related when the second run starts
  from a larger bound. Either the second run has found no point yet and its bound
  is the larger one, or both runs are in the same state.
\<close>

definition loopRel :: "real \<times> nat option \<Rightarrow> real \<times> nat option \<Rightarrow> bool" where
  "loopRel s1 s2 \<longleftrightarrow> (snd s2 = None \<and> fst s1 \<le> fst s2) \<or> s1 = s2"

section \<open>Short paths\<close>

text \<open>
  Claim C8. A path of at most two points, the empty path among them, is returned
  unchanged by \<^verbatim>\<open>simplifyPath\<close>, whatever the tolerance; in particular the empty
  path gives the empty path.
\<close>

theorem simplifyPath_short:
  "(length points \<le> 2 \<longrightarrow> simplifyPath points tolerance = Inr points)
   \<and> simplifyPath [] tolerance = Inr []"
  by (simp add: simplifyPath_def)

theorem simplifyPath_short_witness:
  "length [(1, 2), (3, 4 :: real)] \<le> (2 :: nat)
   \<and> simplifyPath [(1, 2), (3, 4)] 7 = Inr [(1, 2), (3, 4)]
   \<and> simplifyPath [] 7 = Inr []"
  using simplifyPath_short [of "[(1, 2), (3, 4)]" 7] by simp

section \<open>The reference polyline\<close>

text \<open>
  Claim C2, as the specification states it: the path
  \<^verbatim>\<open>[[38.5,-120.2],[40.7,-120.95],[43.252,-126.453]]\<close> is encoded as the string
  that ends in \<^verbatim>\<open>vxq`U\<close>. The encoder does not return that string.
\<close>

theorem encodePolyline_reference_counterexample:
  "encodePolyline [(38.5, -120.2), (40.7, -120.95), (43.252, -126.453)]
   \<noteq> map of_char ''_p~iF~ps|U_ulLnnqC_mqNvxq`U''"
  by code_simp

text \<open>
  Claim C2, amended: the path \<^verbatim>\<open>[[38.5,-120.2],[40.7,-120.95],[43.252,-126.453]]\<close>
  is encoded as \<^verbatim>\<open>_p~iF~ps|U_ulLnnqC_mqNvxq`@\<close>; the last character is \<^verbatim>\<open>@\<close>
  (code 64), the final chunk of the longitude difference \<open>-550300\<close>.
\<close>

theorem encodePolyline_reference:
  "encodePolyline [(38.5, -120.2), (40.7, -120.95), (43.252, -126.453)]
   = map of_char ''_p~iF~ps|U_ulLnnqC_mqNvxq`@''"
  by code_simp

section \<open>Facts about the encoder\<close>

lemma signedTransform_of_int:
  "signedTransform d = word_of_int (if d < 0 then - 2 * d - 1 else 2 * d)"
proof -
  have "push_bit 1 (word_of_int d :: 32 word) = word_of_int (2 * d)"
    by (simp add: push_bit_eq_mult)
  then show ?thesis
    by (simp add: signedTransform_def not_eq_complement)
qed

lemma sint_signedTransform:
  assumes "- (2 ^ 30) \<le> d" "d < 2 ^ 30"
  shows "sint (signedTransform d) = (if d < 0 then - 2 * d - 1 else 2 * d)"
proof -
  let ?k = "if d < 0 then - 2 * d - 1 else 2 * d"
  have "- (2 ^ 31) \<le> ?k" "?k < 2 ^ 31"
    using assms by auto
  then have "signed_take_bit 31 ?k = ?k"
    by (rule signed_take_bit_int_eq_self)
  then show ?thesis
    unfolding signedTransform_of_int by (simp add: sint_sbintrunc')
qed

lemma sint_eq_uint_32:
  fixes w :: "32 word"
  assumes "uint w < 2 ^ 31"
  shows "sint w = uint w"
proof -
  have "sint w = signed_take_bit 31 (uint w)"
    by (simp add: sint_uint)
  also have "\<dots> = uint w"
  proof (rule signed_take_bit_int_eq_self)
    show "- (2 ^ 31) \<le> uint w"
      by (rule order_trans [of _ 0]) simp_all
    show "uint w < 2 ^ 31"
      by (rule assms)
  qed
  finally show ?thesis .
qed

lemma continuation_bits:
  fixes num :: "32 word"
  shows "32 \<le> sint (0x20 OR (num AND 0x1f))" and "sint (0x20 OR (num AND 0x1f)) \<le> 63"
proof -
  let ?w = "0x20 OR (num AND 0x1f) :: 32 word"
  have u: "uint ?w = 32 OR (uint num AND 31)"
    by (simp add: uint_or uint_and)
  have a: "0 \<le> uint num AND 31" "uint num AND 31 \<le> 31"
    by (simp_all add: AND_upper2)
  have lo: "32 \<le> uint ?w"
    unfolding u using a(1) by (rule or_greater_eq)
  have hi: "uint ?w < 2 ^ 6"
    unfolding u using a by (intro OR_upper) simp_all
  then have "sint ?w = uint ?w"
    by (intro sint_eq_uint_32) simp
  with lo hi show "32 \<le> sint ?w" and "sint ?w \<le> 63"
    by simp_all
qed

lemma continuation_char:
  fixes num :: "32 word"
  shows "95 \<le> fromCharCode (sint (0x20 OR (num AND 0x1f)) + 63)"
    and "fromCharCode (sint (0x20 OR (num AND 0x1f)) + 63) \<le> 126"
  using continuation_bits [of num] by (simp_all add: fromCharCode_def)

lemma encodeNumber_loop_inv:
  assumes "encodeNumber_loop num result = (num', result')"
  shows "sint num' < 32
    \<and> (0 \<le> sint num \<longrightarrow> 0 \<le> sint num')
    \<and> (\<exists>cs. result' = result @ cs \<and> (\<forall>c \<in> set cs. 95 \<le> c \<and> c \<le> 126))"
  using assms
proof (induction num result rule: encodeNumber_loop.induct)
  case (1 num result)
  show ?case
  proof (cases "0x20 \<le> sint num")
    case False
    with "1.prems" show ?thesis
      by (simp add: encodeNumber_loop.simps [of num result])
  next
    case True
    let ?c = "fromCharCode (sint (0x20 OR (num AND 0x1f)) + 63)"
    from True "1.prems"
    have "encodeNumber_loop (signed_drop_bit 5 num) (result @ [?c]) = (num', result')"
      by (simp add: encodeNumber_loop.simps [of num result])
    from "1.IH" [OF True this]
    obtain cs where *: "sint num' < 32"
      "0 \<le> sint (signed_drop_bit 5 num) \<longrightarrow> 0 \<le> sint num'"
      "result' = (result @ [?c]) @ cs" "\<forall>c \<in> set cs. 95 \<le> c \<and> c \<le> 126"
      by blast
    have "0 \<le> sint (signed_drop_bit 5 num :: 32 word)"
      using True by (simp add: sint_signed_drop_bit_eq drop_bit_eq_div)
    moreover have "result' = result @ (?c # cs)"
      using *(3) by simp
    moreover have "\<forall>c \<in> set (?c # cs). 95 \<le> c \<and> c \<le> 126"
      using *(4) continuation_char [of num] by simp
    ultimately show ?thesis
      using * by blast
  qed
qed

lemma encodeNumber_shape:
  "\<exists>cs c. encodeNumber num = cs @ [c]
     \<and> (\<forall>x \<in> set cs. 95 \<le> x \<and> x \<le> 126)
     \<and> (0 \<le> sint num \<longrightarrow> 63 \<le> c \<and> c \<le> 94)"
proof -
  obtain num' result' where e: "encodeNumber_loop num [] = (num', result')"
    by (cases "encodeNumber_loop num []")
  from encodeNumber_loop_inv [OF e]
  have *: "sint num' < 32" "0 \<le> sint num \<longrightarrow> 0 \<le> sint num'"
    "\<forall>c \<in> set result'. 95 \<le> c \<and> c \<le> 126"
    by auto
  have "encodeNumber num = result' @ [fromCharCode (sint num' + 63)]"
    by (simp add: encodeNumber_def e)
  moreover have "0 \<le> sint num \<longrightarrow>
      63 \<le> fromCharCode (sint num' + 63) \<and> fromCharCode (sint num' + 63) \<le> 94"
    using * by (auto simp add: fromCharCode_def)
  ultimately show ?thesis
    using *(3) by blast
qed

lemma encodeSignedNumber_length: "1 \<le> length (encodeSignedNumber d)"
proof -
  obtain cs c where "encodeNumber (signedTransform d) = cs @ [c]"
    using encodeNumber_shape [of "signedTransform d"] by blast
  then show ?thesis
    by (simp add: encodeSignedNumber_def)
qed

lemma encodePolyline_loop_length:
  "length result + 2 * (length points - i)
   \<le> length (encodePolyline_loop points i result prevLat prevLng)"
proof (induction points i result prevLat prevLng rule: encodePolyline_loop.induct)
  case (1 points i result prevLat prevLng)
  show ?case
  proof (cases "i < length points")
    case False
    then show ?thesis
      by (simp add: encodePolyline_loop.simps [of points i])
  next
    case True
    let ?lat = "jsRound (fst (points ! i) * 100000)"
    let ?lng = "jsRound (snd (points ! i) * 100000)"
    let ?r = "result @ encodeSignedNumber (?lat - prevLat) @ encodeSignedNumber (?lng - prevLng)"
    have step: "encodePolyline_loop points i result prevLat prevLng
        = encodePolyline_loop points (i + 1) ?r ?lat ?lng"
      using True by (simp add: encodePolyline_loop.simps [of points i] Let_def)
    have "length ?r + 2 * (length points - (i + 1))
        \<le> length (encodePolyline_loop points (i + 1) ?r ?lat ?lng)"
      by (rule "1.IH" [OF True refl refl refl refl])
    moreover have "length result + 2 \<le> length ?r"
      using encodeSignedNumber_length [of "?lat - prevLat"]
        encodeSignedNumber_length [of "?lng - prevLng"] by simp
    ultimately show ?thesis
      using True unfolding step by linarith
  qed
qed

lemma sint_NOT_32: "sint (NOT w) = - sint w - 1" for w :: "32 word"
  by (metis bit.xor_one_right decr_eq_not_minus signed_minus_1 signed_xor_eq
    verit_minus_simplify(4))

lemma zigzag_roundtrip:
  assumes "- (2 ^ 30) \<le> d" "d < 2 ^ 30"
  shows "zigzagDecode (signedTransform d) = d"
proof -
  let ?w = "signedTransform d"
  have s: "sint ?w = (if d < 0 then - 2 * d - 1 else 2 * d)"
    using assms by (rule sint_signedTransform)
  have b: "bit ?w 0 \<longleftrightarrow> d < 0"
    by (simp add: signedTransform_of_int bit_0)
  have "(if d < 0 then - 2 * d - 1 else 2 * d) div 2 = (if d < 0 then - d - 1 else d)"
  proof (cases "d < 0")
    case True
    have "(- 2 * d - 1) div 2 = - d - 1"
      by arith
    with True show ?thesis by simp
  next
    case False
    then show ?thesis by simp
  qed
  then have h: "sint (signed_drop_bit 1 ?w) = (if d < 0 then - d - 1 else d)"
    by (simp add: sint_signed_drop_bit_eq drop_bit_eq_div s)
  show ?thesis
    using h by (simp add: zigzagDecode_def b sint_NOT_32)
qed




lemma jsRound_bounds:
  assumes "\<bar>c\<bar> \<le> 5368"
  shows "\<bar>jsRound (c * 100000)\<bar> \<le> 536800000"
proof -
  have "- 536800000 \<le> c * 100000" "c * 100000 \<le> 536800000"
    using assms by auto
  then have "- 536800000 \<le> jsRound (c * 100000)" "jsRound (c * 100000) \<le> 536800000"
    unfolding jsRound_def by (simp_all add: le_floor_iff floor_le_iff)
  then show ?thesis
    by simp
qed

lemma encodeSignedNumber_chars:
  assumes "- (2 ^ 30) \<le> d" "d < 2 ^ 30"
  shows "\<forall>c \<in> set (encodeSignedNumber d). 63 \<le> c \<and> c \<le> 126"
proof -
  have nonneg: "0 \<le> sint (signedTransform d)"
    using assms by (simp add: sint_signedTransform)
  obtain cs c where e: "encodeNumber (signedTransform d) = cs @ [c]"
    and cs: "\<forall>x \<in> set cs. 95 \<le> x \<and> x \<le> 126"
    and c: "0 \<le> sint (signedTransform d) \<longrightarrow> 63 \<le> c \<and> c \<le> 94"
    using encodeNumber_shape [of "signedTransform d"] by blast
  from c nonneg cs show ?thesis
    by (auto simp add: encodeSignedNumber_def e)
qed

lemma encodePolyline_loop_chars:
  assumes "\<forall>p \<in> set points. \<bar>fst p\<bar> \<le> 5368 \<and> \<bar>snd p\<bar> \<le> 5368"
    and "\<bar>prevLat\<bar> \<le> 536800000" and "\<bar>prevLng\<bar> \<le> 536800000"
    and "\<forall>c \<in> set result. 63 \<le> c \<and> c \<le> 126"
  shows "\<forall>c \<in> set (encodePolyline_loop points i result prevLat prevLng). 63 \<le> c \<and> c \<le> 126"
  using assms
proof (induction points i result prevLat prevLng rule: encodePolyline_loop.induct)
  case (1 points i result prevLat prevLng)
  show ?case
  proof (cases "i < length points")
    case False
    with "1.prems"(4) show ?thesis
      by (simp add: encodePolyline_loop.simps [of points i])
  next
    case True
    let ?lat = "jsRound (fst (points ! i) * 100000)"
    let ?lng = "jsRound (snd (points ! i) * 100000)"
    let ?r = "result @ encodeSignedNumber (?lat - prevLat) @ encodeSignedNumber (?lng - prevLng)"
    have step: "encodePolyline_loop points i result prevLat prevLng
        = encodePolyline_loop points (i + 1) ?r ?lat ?lng"
      using True by (simp add: encodePolyline_loop.simps [of points i] Let_def)
    from True "1.prems"(1) have "\<bar>fst (points ! i)\<bar> \<le> 5368" "\<bar>snd (points ! i)\<bar> \<le> 5368"
      by simp_all
    then have b: "\<bar>?lat\<bar> \<le> 536800000" "\<bar>?lng\<bar> \<le> 536800000"
      by (simp_all add: jsRound_bounds)
    have "\<forall>c \<in> set (encodeSignedNumber (?lat - prevLat)). 63 \<le> c \<and> c \<le> 126"
      using b(1) "1.prems"(2) by (intro encodeSignedNumber_chars) simp_all
    moreover have "\<forall>c \<in> set (encodeSignedNumber (?lng - prevLng)). 63 \<le> c \<and> c \<le> 126"
      using b(2) "1.prems"(3) by (intro encodeSignedNumber_chars) simp_all
    ultimately have r: "\<forall>c \<in> set ?r. 63 \<le> c \<and> c \<le> 126"
      using "1.prems"(4) by auto
    show ?thesis
      unfolding step
      by (rule "1.IH" [OF True refl refl refl refl "1.prems"(1) b r])
  qed
qed

section \<open>Length of the encoded string\<close>

text \<open>
  Claim C10. The string \<^verbatim>\<open>encodePolyline\<close> returns has at least two characters
  for each point of the path (one chunk for the latitude and one for the
  longitude, each of at least one character); so it is empty exactly when the
  path is empty.
\<close>

theorem encodePolyline_length:
  "2 * length points \<le> length (encodePolyline points)
   \<and> (encodePolyline points = [] \<longleftrightarrow> points = [])"
proof -
  have len: "2 * length points \<le> length (encodePolyline points)"
    using encodePolyline_loop_length [of "[]" points 0 0 0]
    by (simp add: encodePolyline_def)
  have "encodePolyline [] = []"
    by (simp add: encodePolyline_def encodePolyline_loop.simps [of "[]"])
  moreover have "points = []" if "encodePolyline points = []"
    using len that by simp
  ultimately show ?thesis
    using len by blast
qed

section \<open>The signed transform and its decoding\<close>

text \<open>
  Claim C5. For every difference \<open>d\<close> from \<open>-1000000\<close> to \<open>1000000\<close>, the pattern
  \<^verbatim>\<open>encodeSignedNumber\<close> computes (\<open>d\<close> shifted left by one bit, inverted when
  \<open>d\<close> is negative) is decoded to exactly \<open>d\<close> by the zig-zag decoding of the
  polyline format. The pattern is the number \<open>2 * d\<close> for \<open>d \<ge> 0\<close> and
  \<open>- 2 * d - 1\<close> for \<open>d < 0\<close>.
\<close>

theorem zigzag_correct:
  "- 1000000 \<le> d \<and> d \<le> 1000000 \<longrightarrow>
     zigzagDecode (signedTransform d) = d
     \<and> sint (signedTransform d) = (if d < 0 then - 2 * d - 1 else 2 * d)"
proof
  assume "- 1000000 \<le> d \<and> d \<le> 1000000"
  then have "- (2 ^ 30) \<le> d" "d < 2 ^ 30"
    by simp_all
  then show "zigzagDecode (signedTransform d) = d
     \<and> sint (signedTransform d) = (if d < 0 then - 2 * d - 1 else 2 * d)"
    using zigzag_roundtrip [of d] sint_signedTransform [of d] by blast
qed

theorem zigzag_correct_witness:
  "- 1000000 \<le> (- 550300 :: int) \<and> (- 550300 :: int) \<le> 1000000
   \<and> zigzagDecode (signedTransform (- 550300)) = - 550300
   \<and> sint (signedTransform (- 550300)) = 1100599"
  using zigzag_correct [of "- 550300"] by simp

section \<open>The characters of the encoded string\<close>

text \<open>
  Claim C7, as the specification states it: for every path, every character of
  the encoded string has a code from 63 to 126. The shift \<^verbatim>\<open>num << 1\<close> works on
  32 bits: the single point \<^verbatim>\<open>[10737.5, 0]\<close> has the scaled latitude
  \<open>1073750000\<close>, above \<open>2^30\<close>, its pattern is negative, and the character
  emitted for it has the code 16415.
\<close>

theorem encodePolyline_chars_counterexample:
  "encodePolyline [(10737.5, 0)] = [16415, 63]
   \<and> \<not> (\<forall>c \<in> set (encodePolyline [(10737.5, 0)]). 63 \<le> c \<and> c \<le> 126)"
  by code_simp

text \<open>
  Claim C7, amended: for every path whose coordinates lie between \<open>-5368\<close> and
  \<open>5368\<close> (every latitude and longitude in degrees does), every character of the
  encoded string has a code from 63 to 126. For every non-negative pattern, the
  characters \<^verbatim>\<open>encodeNumber\<close> emits before the last one are continuation
  characters, from 95 to 126, and the last one is from 63 to 94.
\<close>

theorem encodePolyline_chars:
  "((\<forall>p \<in> set points. \<bar>fst p\<bar> \<le> 5368 \<and> \<bar>snd p\<bar> \<le> 5368) \<longrightarrow>
      (\<forall>c \<in> set (encodePolyline points). 63 \<le> c \<and> c \<le> 126))
   \<and> (0 \<le> sint num \<longrightarrow>
      (\<forall>c \<in> set (butlast (encodeNumber num)). 95 \<le> c \<and> c \<le> 126)
      \<and> 63 \<le> last (encodeNumber num) \<and> last (encodeNumber num) \<le> 94)"
proof (intro conjI impI)
  assume "\<forall>p \<in> set points. \<bar>fst p\<bar> \<le> 5368 \<and> \<bar>snd p\<bar> \<le> 5368"
  then show "\<forall>c \<in> set (encodePolyline points). 63 \<le> c \<and> c \<le> 126"
    unfolding encodePolyline_def by (intro encodePolyline_loop_chars) simp_all
next
  assume nonneg: "0 \<le> sint num"
  obtain cs c where e: "encodeNumber num = cs @ [c]"
    and cs: "\<forall>x \<in> set cs. 95 \<le> x \<and> x \<le> 126"
    and c: "0 \<le> sint num \<longrightarrow> 63 \<le> c \<and> c \<le> 94"
    using encodeNumber_shape [of num] by blast
  from cs show "\<forall>c \<in> set (butlast (encodeNumber num)). 95 \<le> c \<and> c \<le> 126"
    by (simp add: e)
  from c nonneg show "63 \<le> last (encodeNumber num)" "last (encodeNumber num) \<le> 94"
    by (simp_all add: e)
qed

theorem encodePolyline_chars_witness:
  "(\<bar>38.5 :: real\<bar> \<le> 5368 \<and> \<bar>- 120.2 :: real\<bar> \<le> 5368)
   \<and> set (encodePolyline [(38.5, - 120.2)]) \<subseteq> {63..126}
   \<and> 0 \<le> sint (174 :: 32 word)
   \<and> set (butlast (encodeNumber 174)) \<subseteq> {95..126}
   \<and> last (encodeNumber 174) \<in> {63..94}"
  using encodePolyline_chars [of "[(38.5, - 120.2)]" 174] by auto

section \<open>Rounding of the coordinates\<close>




section \<open>Facts about the simplifier\<close>

lemma sum_squares_zero: "dx * dx + dy * dy = 0 \<longleftrightarrow> dx = 0 \<and> dy = 0" for dx dy :: real
  by (simp add: sum_squares_eq_zero_iff)

text \<open>Over the reals, \<^verbatim>\<open>getSqSegDist\<close> divides by a positive number only.\<close>

lemma getSqSegDist_Inr: "\<exists>r. getSqSegDist p p1 p2 = Inr r"
proof (cases "fst p2 - fst p1 \<noteq> 0 \<or> snd p2 - snd p1 \<noteq> 0")
  case True
  then have "(fst p2 - fst p1) * (fst p2 - fst p1) + (snd p2 - snd p1) * (snd p2 - snd p1) \<noteq> 0"
    by (simp add: sum_squares_zero)
  with True show ?thesis
    by (simp add: getSqSegDist_def jsDivide_def Let_def case_prod_beta)
next
  case False
  then show ?thesis
    by (simp add: getSqSegDist_def Let_def case_prod_beta)
qed

lemma sqSegDistAt_Inr:
  assumes "first < length points" "lst < length points" "i < length points"
  shows "\<exists>d. sqSegDistAt points i first lst = Inr d"
  using assms getSqSegDist_Inr [of "points ! i" "points ! first" "points ! lst"]
  by (simp add: sqSegDistAt_def elemAt_def)

lemma simplifyDPStep_loop_Inr:
  assumes "lst < length points" "first < i"
  shows "\<exists>r. simplifyDPStep_loop points first lst i maxSqDist index = Inr r"
  using assms
proof (induction points first lst i maxSqDist index rule: simplifyDPStep_loop.induct)
  case (1 points first lst i maxSqDist index)
  show ?case
  proof (cases "i < lst")
    case False
    then show ?thesis
      by (simp add: simplifyDPStep_loop.simps [of points first lst i])
  next
    case True
    with "1.prems" obtain sqDist where d: "sqSegDistAt points i first lst = Inr sqDist"
      using sqSegDistAt_Inr [of first points lst i] by auto
    have next_i: "first < i + 1"
      using "1.prems" by simp
    show ?thesis
    proof (cases "sqDist > maxSqDist")
      case g: True
      from "1.IH"(1) [OF True d g "1.prems"(1) next_i] True d g show ?thesis
        by (simp add: simplifyDPStep_loop.simps [of points first lst i])
    next
      case g: False
      from "1.IH"(2) [OF True d g "1.prems"(1) next_i] True d g show ?thesis
        by (simp add: simplifyDPStep_loop.simps [of points first lst i])
    qed
  qed
qed

lemma simplifyDPStep_loop_rel:
  assumes "simplifyDPStep_loop points first lst i m1 k1 = Inr r1"
    and "simplifyDPStep_loop points first lst i m2 k2 = Inr r2"
    and "loopRel (m1, k1) (m2, k2)"
  shows "loopRel r1 r2"
  using assms
proof (induction points first lst i m1 k1 arbitrary: m2 k2 rule: simplifyDPStep_loop.induct)
  case (1 points first lst i m1 k1)
  show ?case
  proof (cases "i < lst")
    case False
    with "1.prems" show ?thesis
      by (simp add: simplifyDPStep_loop.simps [of points first lst i])
  next
    case True
    then obtain sqDist where d: "sqSegDistAt points i first lst = Inr sqDist"
      using "1.prems"(1)
      by (cases "sqSegDistAt points i first lst")
        (simp_all add: simplifyDPStep_loop.simps [of points first lst i])
    let ?s1 = "if sqDist > m1 then (sqDist, Some i) else (m1, k1)"
    let ?s2 = "if sqDist > m2 then (sqDist, Some i) else (m2, k2)"
    have run2: "simplifyDPStep_loop points first lst (i + 1) (fst ?s2) (snd ?s2) = Inr r2"
      using "1.prems"(2) True d
      by (auto simp add: simplifyDPStep_loop.simps [of points first lst i m2] split: if_splits)
    have rel: "loopRel (fst ?s1, snd ?s1) (fst ?s2, snd ?s2)"
      using "1.prems"(3) by (auto simp add: loopRel_def)
    show ?thesis
    proof (cases "sqDist > m1")
      case g: True
      then have "simplifyDPStep_loop points first lst (i + 1) sqDist (Some i) = Inr r1"
        using "1.prems"(1) True d
        by (simp add: simplifyDPStep_loop.simps [of points first lst i m1])
      from "1.IH"(1) [OF True d g this run2] rel g show ?thesis
        by simp
    next
      case g: False
      then have "simplifyDPStep_loop points first lst (i + 1) m1 k1 = Inr r1"
        using "1.prems"(1) True d
        by (simp add: simplifyDPStep_loop.simps [of points first lst i m1])
      from "1.IH"(2) [OF True d g this run2] rel g show ?thesis
        by simp
    qed
  qed
qed

lemma upt_split3:
  assumes "first < k" "k < lst"
  shows "[Suc first..<lst] = [Suc first..<k] @ k # [Suc k..<lst]"
proof -
  have "[Suc first..<lst] = [Suc first..<k] @ [k..<lst]"
    using assms upt_add_eq_append [of "Suc first" k "lst - k"] by simp
  also have "[k..<lst] = k # [Suc k..<lst]"
    using assms by (simp add: upt_conv_Cons)
  finally show ?thesis .
qed

text \<open>
  What \<^verbatim>\<open>simplifyDPStep\<close> does to the array it is given: it appends points of the
  open range, in their order, and these do not depend on the array.
\<close>

lemma simplifyDPStep_appends:
  assumes "lst < length points"
  shows "\<exists>ks. (\<forall>simplified. simplifyDPStep points first lst sqTolerance simplified
                  = Inr (simplified @ ks))
              \<and> subseq ks (map ((!) points) [Suc first..<lst])"
  using assms
proof (induction "lst - first" arbitrary: first lst rule: less_induct)
  case less
  obtain m k where loop:
    "simplifyDPStep_loop points first lst (first + 1) sqTolerance None = Inr (m, k)"
    using simplifyDPStep_loop_Inr [of lst points first "first + 1" sqTolerance None] less.prems
    by auto
  show ?case
  proof (cases k)
    case None
    with loop have "\<forall>simplified. simplifyDPStep points first lst sqTolerance simplified
        = Inr (simplified @ [])"
      by (simp add: simplifyDPStep.simps [of points first lst])
    then show ?thesis
      by (intro exI [of _ "[]"]) simp
  next
    case (Some index)
    with loop have range: "first < index" "index < lst"
      using simplifyDPStep_loop_range [of points first lst sqTolerance m index] by simp_all
    from range less.prems have "index < length points"
      by simp
    have "index - first < lst - first"
      using range by simp
    from less.hyps [OF this \<open>index < length points\<close>]
    obtain ks1 where l: "\<forall>simplified. simplifyDPStep points first index sqTolerance simplified
        = Inr (simplified @ ks1)"
      and l_sub: "subseq ks1 (map ((!) points) [Suc first..<index])"
      by blast
    have "lst - index < lst - first"
      using range by simp
    from less.hyps [OF this less.prems]
    obtain ks2 where r: "\<forall>simplified. simplifyDPStep points index lst sqTolerance simplified
        = Inr (simplified @ ks2)"
      and r_sub: "subseq ks2 (map ((!) points) [Suc index..<lst])"
      by blast
    let ?a = "if index - first > 1 then ks1 else []"
    let ?b = "if lst - index > 1 then ks2 else []"
    have "simplifyDPStep points first lst sqTolerance simplified
        = Inr (simplified @ (?a @ points ! index # ?b))" for simplified
      using loop Some l r by (simp add: simplifyDPStep.simps [of points first lst] Let_def)
    moreover have "subseq (?a @ points ! index # ?b) (map ((!) points) [Suc first..<lst])"
    proof -
      have "subseq ?a (map ((!) points) [Suc first..<index])"
        using l_sub by simp
      moreover have "subseq (points ! index # ?b) (points ! index # map ((!) points) [Suc index..<lst])"
        using r_sub by simp
      ultimately have "subseq (?a @ points ! index # ?b)
          (map ((!) points) [Suc first..<index] @ points ! index # map ((!) points) [Suc index..<lst])"
        by (rule list_emb_append_mono)
      then show ?thesis
        by (simp add: upt_split3 [OF range])
    qed
    ultimately show ?thesis
      by blast
  qed
qed

text \<open>
  On the same array and range, the points kept for a larger bound are among those
  kept for a smaller one.
\<close>

lemma simplifyDPStep_mono:
  assumes "lst < length points" "tol1 \<le> tol2"
    and "simplifyDPStep points first lst tol1 [] = Inr ks1"
    and "simplifyDPStep points first lst tol2 [] = Inr ks2"
  shows "subseq ks2 ks1"
  using assms
proof (induction "lst - first" arbitrary: first lst ks1 ks2 rule: less_induct)
  case less
  obtain r1 where loop1:
    "simplifyDPStep_loop points first lst (first + 1) tol1 None = Inr r1"
    using simplifyDPStep_loop_Inr [of lst points first "first + 1" tol1 None] less.prems(1)
    by auto
  obtain r2 where loop2:
    "simplifyDPStep_loop points first lst (first + 1) tol2 None = Inr r2"
    using simplifyDPStep_loop_Inr [of lst points first "first + 1" tol2 None] less.prems(1)
    by auto
  have "loopRel (tol1, None) (tol2, None)"
    using less.prems(2) by (simp add: loopRel_def)
  with loop1 loop2 have rel: "loopRel r1 r2"
    by (rule simplifyDPStep_loop_rel)
  show ?case
  proof (cases "snd r2")
    case None
    then obtain m2 where "r2 = (m2, None)"
      by (cases r2) simp
    with loop2 less.prems(4) have "ks2 = []"
      by (simp add: simplifyDPStep.simps [of points first lst tol2])
    then show ?thesis
      by simp
  next
    case (Some index)
    with rel have same: "r1 = r2"
      by (auto simp add: loopRel_def)
    from Some obtain m where r2: "r2 = (m, Some index)"
      by (cases r2) simp
    with loop2 have range: "first < index" "index < lst"
      using simplifyDPStep_loop_range [of points first lst tol2 m index] by simp_all
    with less.prems(1) have in_range: "index < length points"
      by simp
    obtain a1 where a1: "\<forall>s. simplifyDPStep points first index tol1 s = Inr (s @ a1)"
      using simplifyDPStep_appends [OF in_range, of first tol1] by blast
    obtain a2 where a2: "\<forall>s. simplifyDPStep points first index tol2 s = Inr (s @ a2)"
      using simplifyDPStep_appends [OF in_range, of first tol2] by blast
    obtain b1 where b1: "\<forall>s. simplifyDPStep points index lst tol1 s = Inr (s @ b1)"
      using simplifyDPStep_appends [OF less.prems(1), of index tol1] by blast
    obtain b2 where b2: "\<forall>s. simplifyDPStep points index lst tol2 s = Inr (s @ b2)"
      using simplifyDPStep_appends [OF less.prems(1), of index tol2] by blast
    have "index - first < lst - first"
      using range by simp
    from less.hyps [OF this in_range less.prems(2)] a1 a2
    have a: "subseq a2 a1"
      by simp
    have "lst - index < lst - first"
      using range by simp
    from less.hyps [OF this less.prems(1) less.prems(2)] b1 b2
    have b: "subseq b2 b1"
      by simp
    let ?a1 = "if index - first > 1 then a1 else []"
    let ?a2 = "if index - first > 1 then a2 else []"
    let ?b1 = "if lst - index > 1 then b1 else []"
    let ?b2 = "if lst - index > 1 then b2 else []"
    have "ks1 = ?a1 @ points ! index # ?b1"
      using less.prems(3) loop1 same r2
      by (auto simp add: simplifyDPStep.simps [of points first lst tol1] Let_def a1 b1)
    moreover have "ks2 = ?a2 @ points ! index # ?b2"
      using less.prems(4) loop2 r2
      by (auto simp add: simplifyDPStep.simps [of points first lst tol2] Let_def a2 b2)
    moreover have "subseq (?a2 @ points ! index # ?b2) (?a1 @ points ! index # ?b1)"
    proof (rule list_emb_append_mono)
      show "subseq ?a2 ?a1"
        using a by simp
      show "subseq (points ! index # ?b2) (points ! index # ?b1)"
        using b by simp
    qed
    ultimately show ?thesis
      by simp
  qed
qed

lemma vertexReduction_loop_filter:
  "vertexReduction_loop points sqTolerance i reducedPoints =
     reducedPoints @ map ((!) points)
       (filter (\<lambda>j. sqTolerance < getSqDist (points ! j) (points ! (j - 1)))
          [i..<length points - 1])"
proof (induction points sqTolerance i reducedPoints rule: vertexReduction_loop.induct)
  case (1 points sqTolerance i reducedPoints)
  show ?case
  proof (cases "i < length points - 1")
    case False
    then show ?thesis
      by (simp add: vertexReduction_loop.simps [of points sqTolerance i])
  next
    case True
    then have upt: "[i..<length points - 1] = i # [i + 1..<length points - 1]"
      using upt_conv_Cons [of i "length points - 1"] by simp
    show ?thesis
    proof (cases "sqTolerance < getSqDist (points ! i) (points ! (i - 1))")
      case g: True
      with True "1.IH"(1) [OF True] upt show ?thesis
        by (simp add: vertexReduction_loop.simps [of points sqTolerance i])
    next
      case g: False
      with True "1.IH"(2) [OF True] upt show ?thesis
        by (simp add: vertexReduction_loop.simps [of points sqTolerance i])
    qed
  qed
qed

lemma vertexReduction_filter:
  "vertexReduction points sqTolerance =
     points ! 0 # map ((!) points)
       (filter (\<lambda>i. sqTolerance < getSqDist (points ! i) (points ! (i - 1)))
          [1..<length points - 1]) @ [points ! (length points - 1)]"
  by (simp add: vertexReduction_def vertexReduction_loop_filter)

lemma list_split_ends:
  assumes "2 \<le> length xs"
  shows "xs = xs ! 0 # map ((!) xs) [1..<length xs - 1] @ [xs ! (length xs - 1)]"
proof -
  from assms have "\<exists>n. length xs = Suc (Suc n)"
    by presburger
  then obtain n where n: "length xs = Suc (Suc n)" ..
  have "[0..<Suc n] = 0 # [Suc 0..<Suc n]"
    by (rule upt_conv_Cons) simp
  then have "[0..<Suc (Suc n)] = 0 # [Suc 0..<Suc n] @ [Suc n]"
    by simp
  then have "map ((!) xs) [0..<length xs]
      = xs ! 0 # map ((!) xs) [Suc 0..<Suc n] @ [xs ! Suc n]"
    unfolding n by simp
  then have "xs = xs ! 0 # map ((!) xs) [Suc 0..<Suc n] @ [xs ! Suc n]"
    by (simp only: map_nth)
  then show ?thesis
    by (simp add: n)
qed

lemma subseq_between_ends:
  assumes "2 \<le> length xs" "subseq ks (map ((!) xs) [1..<length xs - 1])"
  shows "subseq (xs ! 0 # ks @ [xs ! (length xs - 1)]) xs"
proof -
  have "subseq (xs ! 0 # ks @ [xs ! (length xs - 1)])
      (xs ! 0 # map ((!) xs) [1..<length xs - 1] @ [xs ! (length xs - 1)])"
    using assms(2) by (simp add: list_emb_append_mono)
  also have "xs ! 0 # map ((!) xs) [1..<length xs - 1] @ [xs ! (length xs - 1)] = xs"
    by (rule list_split_ends [OF assms(1), symmetric])
  finally show ?thesis .
qed

lemma vertexReduction_subseq:
  assumes "2 \<le> length points"
  shows "subseq (vertexReduction points sqTolerance) points"
  unfolding vertexReduction_filter
  by (rule subseq_between_ends [OF assms]) (simp add: subseq_map)

lemma vertexReduction_ends:
  "length (vertexReduction points sqTolerance) \<ge> 2"
  "vertexReduction points sqTolerance ! 0 = points ! 0"
  "vertexReduction points sqTolerance ! (length (vertexReduction points sqTolerance) - 1)
     = points ! (length points - 1)"
  by (simp_all add: vertexReduction_filter nth_append)

text \<open>The result of \<^verbatim>\<open>simplifyPath\<close> on a path of more than two points.\<close>

lemma simplifyPath_long:
  assumes "2 < length points"
  shows "\<exists>ks. simplifyPath points tolerance
          = Inr (points ! 0 # ks @ [points ! (length points - 1)])
      \<and> simplifyDPStep (vertexReduction points (tolerance * tolerance)) 0
            (length (vertexReduction points (tolerance * tolerance)) - 1)
            (tolerance * tolerance) [] = Inr ks
      \<and> subseq (points ! 0 # ks @ [points ! (length points - 1)])
            (vertexReduction points (tolerance * tolerance))"
proof -
  let ?r = "vertexReduction points (tolerance * tolerance)"
  have len: "length ?r - 1 < length ?r"
    using vertexReduction_ends(1) [of points "tolerance * tolerance"] by simp
  from simplifyDPStep_appends [OF len, of 0 "tolerance * tolerance"]
  obtain ks where ks: "\<forall>s. simplifyDPStep ?r 0 (length ?r - 1) (tolerance * tolerance) s
        = Inr (s @ ks)"
    and sub: "subseq ks (map ((!) ?r) [1..<length ?r - 1])"
    by auto
  have dp: "simplifyDPStep ?r 0 (length ?r - 1) (tolerance * tolerance) [?r ! 0]
      = Inr ([?r ! 0] @ ks)"
    using ks by blast
  have "simplifyPath points tolerance = Inr (([?r ! 0] @ ks) @ [?r ! (length ?r - 1)])"
    using assms unfolding simplifyPath_def Let_def dp by simp
  then have "simplifyPath points tolerance
      = Inr (points ! 0 # ks @ [points ! (length points - 1)])"
    unfolding vertexReduction_ends by simp
  moreover have "simplifyDPStep ?r 0 (length ?r - 1) (tolerance * tolerance) [] = Inr ks"
    using ks [rule_format, of "[]"] by simp
  moreover have "subseq (points ! 0 # ks @ [points ! (length points - 1)]) ?r"
    using subseq_between_ends [OF vertexReduction_ends(1) sub]
    unfolding vertexReduction_ends .
  ultimately show ?thesis
    by blast
qed

section \<open>Stage 1: vertex reduction\<close>

text \<open>
  Claim C1: in stage 1 an interior point is kept if and only if its squared
  distance to the previously kept point exceeds the squared tolerance. The loop of
  the source compares \<^verbatim>\<open>points[i]\<close> with \<^verbatim>\<open>points[i - 1]\<close>, the previous point of the
  input, kept or not. On the path \<^verbatim>\<open>[[0,0],[0,2],[0,4],[100,0]]\<close> with tolerance 2
  it drops \<^verbatim>\<open>[0,2]\<close>, so that the previously kept point is still \<^verbatim>\<open>[0,0]\<close> when it
  looks at \<^verbatim>\<open>[0,4]\<close>, at the squared distance 16 from it, and it drops \<^verbatim>\<open>[0,4]\<close>
  too: stage 1 returns \<^verbatim>\<open>[[0,0],[100,0]]\<close>, and so does \<^verbatim>\<open>simplifyPath\<close>, although
  \<^verbatim>\<open>[0,4]\<close> is at the distance 4, twice the tolerance, from that segment.
\<close>

theorem vertexReduction_previous_input:
  "vertexReduction_loop [(0, 0), (0, 2), (0, 4), (100, 0)] (2 * 2) 1 [(0, 0)]
     = vertexReduction_loop [(0, 0), (0, 2), (0, 4), (100, 0)] (2 * 2) 2 [(0, 0)]
   \<and> 2 * 2 < getSqDist (0, 4) (0, 0)
   \<and> vertexReduction [(0, 0), (0, 2), (0, 4), (100, 0)] (2 * 2) = [(0, 0), (100, 0)]
   \<and> simplifyPath [(0, 0), (0, 2), (0, 4), (100, 0)] 2 = Inr [(0, 0), (100, 0)]"
  by code_simp

section \<open>The result is a subsequence of the path\<close>

text \<open>
  Claim C3. For every non-empty path and every tolerance, \<^verbatim>\<open>simplifyPath\<close> returns
  a result; the result is a subsequence of the path (its points in their order, no
  new point), its first point is the first point of the path and its last point
  is the last point of the path.
\<close>

theorem simplifyPath_subseq:
  "points \<noteq> [] \<longrightarrow>
     (\<exists>out. simplifyPath points tolerance = Inr out
        \<and> subseq out points \<and> hd out = hd points \<and> last out = last points)"
proof
  assume nonempty: "points \<noteq> []"
  show "\<exists>out. simplifyPath points tolerance = Inr out
        \<and> subseq out points \<and> hd out = hd points \<and> last out = last points"
  proof (cases "length points \<le> 2")
    case True
    then have "simplifyPath points tolerance = Inr points"
      by (simp add: simplifyPath_def)
    then show ?thesis
      by simp
  next
    case False
    then have long: "2 < length points"
      by simp
    from simplifyPath_long [OF long, of tolerance]
    obtain ks where out: "simplifyPath points tolerance
          = Inr (points ! 0 # ks @ [points ! (length points - 1)])"
      and sub: "subseq (points ! 0 # ks @ [points ! (length points - 1)])
            (vertexReduction points (tolerance * tolerance))"
      by blast
    have "subseq (vertexReduction points (tolerance * tolerance)) points"
      using long by (intro vertexReduction_subseq) simp
    with sub have "subseq (points ! 0 # ks @ [points ! (length points - 1)]) points"
      by (rule subseq_order.trans)
    moreover have "hd (points ! 0 # ks @ [points ! (length points - 1)]) = hd points"
      using nonempty by (simp add: hd_conv_nth)
    moreover have "last (points ! 0 # ks @ [points ! (length points - 1)]) = last points"
      using nonempty by (simp add: last_conv_nth)
    ultimately show ?thesis
      using out by blast
  qed
qed

theorem simplifyPath_subseq_witness:
  "[(0, 0), (1, 1), (2, 0), (3, 3 :: real)] \<noteq> []
   \<and> (\<exists>out. simplifyPath [(0, 0), (1, 1), (2, 0), (3, 3)] 1 = Inr out
        \<and> subseq out [(0, 0), (1, 1), (2, 0), (3, 3)]
        \<and> hd out = hd [(0, 0), (1, 1), (2, 0), (3, 3 :: real)]
        \<and> last out = last [(0, 0), (1, 1), (2, 0), (3, 3 :: real)])"
  using simplifyPath_subseq [of "[(0, 0), (1, 1), (2, 0), (3, 3)]" 1] by blast

section \<open>Increasing the tolerance\<close>

text \<open>
  Claim C4, as the specification states it: a larger tolerance never gives a
  longer result. On the path \<^verbatim>\<open>[[0,-1000],[0,-5],[0,0],[100,3],[1000,0]]\<close> the
  tolerance 4 gives three points and the tolerance 5 gives four: with tolerance 5
  stage 1 drops \<^verbatim>\<open>[0,0]\<close>, the point at which stage 2 splits the path with
  tolerance 4, and without it stage 2 has to keep two points.
\<close>

theorem simplifyPath_mono_counterexample:
  "(4 :: real) < 5
   \<and> simplifyPath [(0, - 1000), (0, - 5), (0, 0), (100, 3), (1000, 0)] 4
       = Inr [(0, - 1000), (0, 0), (1000, 0)]
   \<and> simplifyPath [(0, - 1000), (0, - 5), (0, 0), (100, 3), (1000, 0)] 5
       = Inr [(0, - 1000), (0, - 5), (100, 3), (1000, 0)]
   \<and> length [(0, - 1000), (0, 0), (1000, 0 :: real)]
       < length [(0, - 1000), (0, - 5), (100, 3), (1000, 0 :: real)]"
  by code_simp

text \<open>
  Claim C4, amended: for tolerances \<open>0 \<le> t1 \<le> t2\<close> for which stage 1 keeps the same
  points, the result of \<^verbatim>\<open>simplifyPath\<close> for \<open>t2\<close> is a subsequence of the result
  for \<open>t1\<close>, so it is not longer.
\<close>

theorem simplifyPath_mono:
  "0 \<le> t1 \<and> t1 \<le> t2
     \<and> vertexReduction points (t1 * t1) = vertexReduction points (t2 * t2) \<longrightarrow>
   (\<exists>r1 r2. simplifyPath points t1 = Inr r1 \<and> simplifyPath points t2 = Inr r2
      \<and> subseq r2 r1 \<and> length r2 \<le> length r1)"
proof
  assume h: "0 \<le> t1 \<and> t1 \<le> t2
     \<and> vertexReduction points (t1 * t1) = vertexReduction points (t2 * t2)"
  then have same: "vertexReduction points (t1 * t1) = vertexReduction points (t2 * t2)"
    by simp
  from h have tol: "t1 * t1 \<le> t2 * t2"
    by (intro mult_mono) simp_all
  show "\<exists>r1 r2. simplifyPath points t1 = Inr r1 \<and> simplifyPath points t2 = Inr r2
             \<and> subseq r2 r1 \<and> length r2 \<le> length r1"
  proof (cases "length points \<le> 2")
    case True
    then have "simplifyPath points t1 = Inr points" "simplifyPath points t2 = Inr points"
      by (simp_all add: simplifyPath_def)
    then show ?thesis
      by simp
  next
    case False
    then have long: "2 < length points"
      by simp
    let ?r = "vertexReduction points (t2 * t2)"
    from simplifyPath_long [OF long, of t1] same
    obtain ks1 where out1: "simplifyPath points t1
          = Inr (points ! 0 # ks1 @ [points ! (length points - 1)])"
      and dp1: "simplifyDPStep ?r 0 (length ?r - 1) (t1 * t1) [] = Inr ks1"
      by auto
    from simplifyPath_long [OF long, of t2]
    obtain ks2 where out2: "simplifyPath points t2
          = Inr (points ! 0 # ks2 @ [points ! (length points - 1)])"
      and dp2: "simplifyDPStep ?r 0 (length ?r - 1) (t2 * t2) [] = Inr ks2"
      by auto
    have "length ?r - 1 < length ?r"
      using vertexReduction_ends(1) [of points "t2 * t2"] by simp
    from simplifyDPStep_mono [OF this tol dp1 dp2]
    have "subseq (points ! 0 # ks2 @ [points ! (length points - 1)])
        (points ! 0 # ks1 @ [points ! (length points - 1)])"
      by (simp add: list_emb_append_mono)
    with out1 out2 show ?thesis
      using list_emb_length by blast
  qed
qed

theorem simplifyPath_mono_witness:
  "(0 :: real) \<le> 1 \<and> (1 :: real) \<le> 4
   \<and> vertexReduction [(0, 0), (5, 5), (10, 0), (15, 1), (20, 0)] (1 * 1)
       = vertexReduction [(0, 0), (5, 5), (10, 0), (15, 1), (20, 0)] (4 * 4)
   \<and> simplifyPath [(0, 0), (5, 5), (10, 0), (15, 1), (20, 0)] 1
       = Inr [(0, 0), (5, 5), (10, 0), (20, 0)]
   \<and> simplifyPath [(0, 0), (5, 5), (10, 0), (15, 1), (20, 0)] 4
       = Inr [(0, 0), (5, 5), (20, 0)]
   \<and> subseq ([(0, 0), (5, 5), (20, 0)] :: point list) ([(0, 0), (5, 5), (10, 0), (20, 0)] :: point list)
   \<and> length ([(0, 0), (5, 5), (20, 0)] :: point list) \<le> length ([(0, 0), (5, 5), (10, 0), (20, 0)] :: point list)"
proof -
  have same: "vertexReduction [(0, 0), (5, 5), (10, 0), (15, 1), (20, 0)] (1 * 1)
       = vertexReduction [(0, 0), (5, 5), (10, 0), (15, 1), (20, 0)] (4 * 4)"
    by code_simp
  have r1: "simplifyPath [(0, 0), (5, 5), (10, 0), (15, 1), (20, 0)] 1
       = Inr [(0, 0), (5, 5), (10, 0), (20, 0)]"
    by code_simp
  have r2: "simplifyPath [(0, 0), (5, 5), (10, 0), (15, 1), (20, 0)] 4
       = Inr [(0, 0), (5, 5), (20, 0)]"
    by code_simp
  have "(0 :: real) \<le> 1 \<and> (1 :: real) \<le> 4"
    by simp
  with simplifyPath_mono [of 1 4 "[(0, 0), (5, 5), (10, 0), (15, 1), (20, 0)]"] same
  have "\<exists>r1 r2. simplifyPath [(0, 0), (5, 5), (10, 0), (15, 1), (20, 0)] 1 = Inr r1
      \<and> simplifyPath [(0, 0), (5, 5), (10, 0), (15, 1), (20, 0)] 4 = Inr r2
      \<and> subseq r2 r1 \<and> length r2 \<le> length r1"
    by blast
  then have "subseq ([(0, 0), (5, 5), (20, 0)] :: point list) ([(0, 0), (5, 5), (10, 0), (20, 0)] :: point list)
      \<and> length ([(0, 0), (5, 5), (20, 0)] :: point list) \<le> length ([(0, 0), (5, 5), (10, 0), (20, 0)] :: point list)"
    unfolding r1 r2 by auto
  with same r1 r2 show ?thesis
    by simp
qed

end
